theory Spec2Isabelle
  imports Complex_Main "HOL-Library.Sublist"
begin

section \<open>The support-site crawler of \<^verbatim>\<open>backend/chatbot/web_crawler.py\<close>\<close>

text \<open>
  The development embeds the class \<^verbatim>\<open>AngelOneWebCrawler\<close>: the URL normaliser, the scope
  test, the content extractor and the driver loop, with the crawler object as an explicit
  state that every method takes and returns.

  A Python \<^verbatim>\<open>str\<close> is a \<^typ>\<open>string\<close>, one \<^typ>\<open>char\<close> per code point; the model therefore
  covers the code points below 256. A value that is a \<^verbatim>\<open>str\<close> or \<^verbatim>\<open>None\<close> is a
  \<^typ>\<open>string option\<close>. Python integers are \<^typ>\<open>int\<close>.
\<close>

subsection \<open>String methods of Python used by the crawler\<close>

text \<open>\<^verbatim>\<open>str.isspace\<close> on one character, for the code points below 256.\<close>

definition isspace :: "char \<Rightarrow> bool" where
  "isspace c \<longleftrightarrow> c \<in> {CHR 0x09, CHR 0x0A, CHR 0x0B, CHR 0x0C, CHR 0x0D,
     CHR 0x1C, CHR 0x1D, CHR 0x1E, CHR 0x1F, CHR 0x20, CHR 0x85, CHR 0xA0}"

text \<open>\<^verbatim>\<open>s.strip()\<close>: whitespace is removed at both ends.\<close>

definition strip :: "string \<Rightarrow> string" where
  "strip s = rev (dropWhile isspace (rev (dropWhile isspace s)))"

text \<open>\<^verbatim>\<open>s.split(c)\<close> for a one-character separator: one more piece than separators.\<close>

fun split :: "char \<Rightarrow> string \<Rightarrow> string list" where
  "split c [] = [[]]"
| "split c (x # xs) =
     (if x = c then [] # split c xs
      else (case split c xs of
              [] \<Rightarrow> [[x]]
            | l # ls \<Rightarrow> (x # l) # ls))"

text \<open>\<^verbatim>\<open>sep.join(pieces)\<close>.\<close>

fun join :: "string \<Rightarrow> string list \<Rightarrow> string" where
  "join sep [] = []"
| "join sep [x] = x"
| "join sep (x # y # ys) = x @ sep @ join sep (y # ys)"

text \<open>\<^verbatim>\<open>s.endswith('/')\<close> and \<^verbatim>\<open>s.startswith(p)\<close>.\<close>

definition endswith_slash :: "string \<Rightarrow> bool" where
  "endswith_slash s \<longleftrightarrow> s \<noteq> [] \<and> last s = CHR ''/''"

definition startswith :: "string \<Rightarrow> string \<Rightarrow> bool" where
  "startswith s p \<longleftrightarrow> prefix p s"

text \<open>The truth value Python gives a \<^verbatim>\<open>str\<close> or \<^verbatim>\<open>None\<close>: false for \<^verbatim>\<open>None\<close> and \<^verbatim>\<open>''\<close>.\<close>

fun truthy :: "string option \<Rightarrow> bool" where
  "truthy None = False"
| "truthy (Some s) = (s \<noteq> [])"

subsection \<open>\<^verbatim>\<open>urllib.parse.urlparse\<close>\<close>

text \<open>
  \<^verbatim>\<open>urlparse\<close> belongs to the standard library, not to the repository. It is embedded
  after CPython 3.11 (\<^verbatim>\<open>urlsplit\<close>, \<^verbatim>\<open>_splitnetloc\<close>, \<^verbatim>\<open>_splitparams\<close>, \<^verbatim>\<open>urlparse\<close>), statement
  by statement. Two of its checks call further libraries:
  \<^item> \<^verbatim>\<open>_check_bracketed_host\<close> (module \<^verbatim>\<open>ipaddress\<close>) decides whether the host between
    \<^verbatim>\<open>[\<close> and \<^verbatim>\<open>]\<close> is acceptable; it is the parameter \<open>ip\<close> of the embedding;
  \<^item> \<^verbatim>\<open>_checknetloc\<close> raises only when the NFKC form of the host contains one of
    \<^verbatim>\<open>/?#@:\<close> that the host does not; no code point below 256 normalises to one of
    these, so it never raises on the strings of this model.
\<close>

text \<open>
  The exceptions of the model: \<^verbatim>\<open>ValueError\<close> is raised by \<^verbatim>\<open>urlparse\<close>; \<open>FetchError\<close> stands
  for whatever the HTTP request or the parser raises, \<open>ParseError\<close> for whatever a later
  call on the parsed document raises; \<^verbatim>\<open>IndexError\<close> is what \<^verbatim>\<open>popleft\<close> raises on an empty
  queue.
\<close>

datatype error = ValueError | FetchError | ParseError | IndexError

record parse_result =
  scheme :: string
  netloc :: string
  path :: string
  params :: string
  query :: string
  fragment :: string

definition c0_control_or_space :: "char \<Rightarrow> bool" where
  "c0_control_or_space c \<longleftrightarrow> (of_char c :: nat) \<le> 32"

definition unsafe_url_byte :: "char \<Rightarrow> bool" where
  "unsafe_url_byte c \<longleftrightarrow> c \<in> {CHR 0x09, CHR 0x0D, CHR 0x0A}"

definition ascii_alpha :: "char \<Rightarrow> bool" where
  "ascii_alpha c \<longleftrightarrow> (let n = (of_char c :: nat) in (65 \<le> n \<and> n \<le> 90) \<or> (97 \<le> n \<and> n \<le> 122))"

definition ascii_digit :: "char \<Rightarrow> bool" where
  "ascii_digit c \<longleftrightarrow> (let n = (of_char c :: nat) in 48 \<le> n \<and> n \<le> 57)"

definition scheme_char :: "char \<Rightarrow> bool" where
  "scheme_char c \<longleftrightarrow> ascii_alpha c \<or> ascii_digit c \<or> c \<in> {CHR ''+'', CHR ''-'', CHR ''.''}"

text \<open>\<^verbatim>\<open>str.lower\<close> on a character; it is applied to scheme characters only.\<close>

definition lower :: "char \<Rightarrow> char" where
  "lower c = (let n = (of_char c :: nat) in if 65 \<le> n \<and> n \<le> 90 then char_of (n + 32) else c)"

definition uses_params :: "string list" where
  "uses_params = ['''', ''ftp'', ''hdl'', ''prospero'', ''http'', ''imap'',
     ''https'', ''shttp'', ''rtsp'', ''rtsps'', ''rtspu'', ''sip'',
     ''sips'', ''mms'', ''sftp'', ''tel'']"

text \<open>
  \<^verbatim>\<open>s.find(c) >= 0\<close> is \<open>c \<in> set s\<close>; then \<^verbatim>\<open>s[:s.find(c)]\<close> is \<open>before c s\<close> and
  \<^verbatim>\<open>s[s.find(c)+1:]\<close> is \<open>after c s\<close>.
\<close>

definition before :: "char \<Rightarrow> string \<Rightarrow> string" where
  "before c s = takeWhile (\<lambda>x. x \<noteq> c) s"

definition after :: "char \<Rightarrow> string \<Rightarrow> string" where
  "after c s = tl (dropWhile (\<lambda>x. x \<noteq> c) s)"

text \<open>\<^verbatim>\<open>s.rfind(c)\<close> where \<open>c\<close> occurs in \<open>s\<close>: the index of its last occurrence.\<close>

definition rfind :: "char \<Rightarrow> string \<Rightarrow> nat" where
  "rfind c s = length s - 1 - length (takeWhile (\<lambda>x. x \<noteq> c) (rev s))"

text \<open>\<^verbatim>\<open>_splitnetloc(url, 2)\<close>: the host ends at the first of \<^verbatim>\<open>/?#\<close> after the two slashes.\<close>

definition netloc_delim :: "char \<Rightarrow> bool" where
  "netloc_delim c \<longleftrightarrow> c \<in> {CHR ''/'', CHR ''?'', CHR ''#''}"

definition splitnetloc :: "string \<Rightarrow> string \<times> string" where
  "splitnetloc u =
     (takeWhile (\<lambda>c. \<not> netloc_delim c) (drop 2 u),
      dropWhile (\<lambda>c. \<not> netloc_delim c) (drop 2 u))"

text \<open>
  \<^verbatim>\<open>_splitparams(url)\<close>. In the last branch \<^verbatim>\<open>find\<close> may return \<open>-1\<close>, and the slices are
  \<^verbatim>\<open>url[:-1]\<close> and \<^verbatim>\<open>url[0:]\<close>.
\<close>

definition splitparams :: "string \<Rightarrow> string \<times> string" where
  "splitparams u =
     (if CHR ''/'' \<in> set u then
        (let k = rfind (CHR ''/'') u in
         if CHR '';'' \<in> set (drop k u)
         then (take k u @ before (CHR '';'') (drop k u), after (CHR '';'') (drop k u))
         else (u, []))
      else if CHR '';'' \<in> set u then (before (CHR '';'') u, after (CHR '';'') u)
      else (butlast u, u))"

definition urlsplit :: "(string \<Rightarrow> bool) \<Rightarrow> string \<Rightarrow> error + parse_result" where
  "urlsplit ip url0 =
     (let url1 = filter (\<lambda>c. \<not> unsafe_url_byte c) (dropWhile c0_control_or_space url0);
          has_scheme = (CHR '':'' \<in> set url1 \<and> before (CHR '':'') url1 \<noteq> []
                        \<and> ascii_alpha (hd url1) \<and> list_all scheme_char (before (CHR '':'') url1));
          sch = (if has_scheme then map lower (before (CHR '':'') url1) else []);
          url2 = (if has_scheme then after (CHR '':'') url1 else url1);
          has_netloc = (take 2 url2 = ''//'');
          nl = (if has_netloc then fst (splitnetloc url2) else []);
          url3 = (if has_netloc then snd (splitnetloc url2) else url2);
          url4 = (if CHR ''#'' \<in> set url3 then before (CHR ''#'') url3 else url3);
          frag = (if CHR ''#'' \<in> set url3 then after (CHR ''#'') url3 else []);
          url5 = (if CHR ''?'' \<in> set url4 then before (CHR ''?'') url4 else url4);
          qu = (if CHR ''?'' \<in> set url4 then after (CHR ''?'') url4 else [])
      in if has_netloc \<and> ((CHR ''['' \<in> set nl \<and> CHR '']'' \<notin> set nl)
                          \<or> (CHR '']'' \<in> set nl \<and> CHR ''['' \<notin> set nl))
         then Inl ValueError
         else if has_netloc \<and> CHR ''['' \<in> set nl \<and> CHR '']'' \<in> set nl
                 \<and> \<not> ip (before (CHR '']'') (after (CHR ''['') nl))
         then Inl ValueError
         else Inr \<lparr>scheme = sch, netloc = nl, path = url5, params = [],
                   query = qu, fragment = frag\<rparr>)"

definition urlparse :: "(string \<Rightarrow> bool) \<Rightarrow> string \<Rightarrow> error + parse_result" where
  "urlparse ip u =
     (case urlsplit ip u of
        Inl e \<Rightarrow> Inl e
      | Inr r \<Rightarrow>
          if scheme r \<in> set uses_params \<and> CHR '';'' \<in> set (path r)
          then Inr (r\<lparr>path := fst (splitparams (path r)), params := snd (splitparams (path r))\<rparr>)
          else Inr r)"

subsection \<open>\<^verbatim>\<open>normalize_url\<close> and \<^verbatim>\<open>is_support_url\<close>\<close>

text \<open>
  \<^verbatim>\<open>normalize_url\<close> returns \<^verbatim>\<open>None\<close> for an empty argument, lets the \<^verbatim>\<open>ValueError\<close> of
  \<^verbatim>\<open>urlparse\<close> through, and otherwise assembles scheme, \<^verbatim>\<open>://\<close>, host and path and drops
  one final slash. The second conjunct of its guard is \<^verbatim>\<open>len(normalized) > 1\<close>.
\<close>

definition normalize_url :: "(string \<Rightarrow> bool) \<Rightarrow> string \<Rightarrow> error + string option" where
  "normalize_url ip u =
     (if u = [] then Inr None
      else case urlparse ip u of
             Inl e \<Rightarrow> Inl e
           | Inr parsed \<Rightarrow>
               (let normalized = scheme parsed @ ''://'' @ netloc parsed @ path parsed
                in if endswith_slash normalized \<and> length normalized > 1
                   then Inr (Some (butlast normalized))
                   else Inr (Some normalized)))"

subsection \<open>The crawler object and its environment\<close>

text \<open>The dictionary that \<^verbatim>\<open>scrape_page_content\<close> returns for a page.\<close>

record page_record =
  url :: "string option"
  title :: string
  content :: string
  content_length :: int
  source_type :: string
  timestamp :: real

text \<open>The attributes of \<^verbatim>\<open>AngelOneWebCrawler\<close> that the methods read and write.\<close>

record crawler =
  base_url :: string
  max_pages :: int
  visited_urls :: "string option set"
  scraped_data :: "page_record list"
  url_queue :: "string list"
  failed_urls :: "string option set"

text \<open>
  What the crawler reads of a parsed document (a \<^verbatim>\<open>BeautifulSoup\<close> object):
  \<^item> \<open>anchors\<close>: \<^verbatim>\<open>urljoin(url, link['href'])\<close> for every \<^verbatim>\<open>a\<close> element with an \<^verbatim>\<open>href\<close>, in
    document order, read before any element is removed;
  \<^item> \<open>raises\<close>: a call made on the document after the links were harvested raises;
  \<^item> \<open>title_tag\<close>: \<^verbatim>\<open>get_text()\<close> of the \<^verbatim>\<open>title\<close> element, if there is one, once the
    script, style, nav, footer and header elements are removed;
  \<^item> \<open>select_one\<close>: for a selector, \<^verbatim>\<open>html_converter.handle(str(element))\<close> of the first
    element it matches, \<open>None\<close> when it matches none;
  \<^item> \<open>body\<close>: the same text for the \<^verbatim>\<open>body\<close> element.
\<close>

record document =
  anchors :: "string list"
  raises :: bool
  title_tag :: "string option"
  select_one :: "string \<Rightarrow> string option"
  body :: "string option"

text \<open>
  Everything outside the program:
  \<^item> \<open>ip_ok\<close>: the bracketed-host check of \<^verbatim>\<open>urlparse\<close>;
  \<^item> \<open>http_get\<close>: \<^verbatim>\<open>session.get\<close>, \<^verbatim>\<open>raise_for_status\<close> and the parse of the response for a
    URL, \<open>None\<close> when one of them raises (also when \<^verbatim>\<open>urljoin\<close> raises on an anchor);
  \<^item> \<open>driver\<close>: \<^verbatim>\<open>self.driver\<close> is not \<^verbatim>\<open>None\<close>;
  \<^item> \<open>driver_get\<close>: the page the browser shows for a URL after the waits and the scroll,
    \<open>None\<close> when a call in the \<^verbatim>\<open>try\<close> block of \<^verbatim>\<open>scrape_with_selenium\<close> raises;
  \<^item> \<open>seed_get\<close>, \<open>seed_driver_get\<close>: the two requests of the discovery sweep for the base
    URL, the second after scrolling and clicking;
  \<^item> \<open>set_order\<close>: the order in which Python iterates a set, given its elements in
    insertion order; nothing is assumed about it;
  \<^item> \<open>clock\<close>, \<open>save_clock\<close>: \<^verbatim>\<open>time.time()\<close> when a page is captured and when the summary
    is built.
  The loop asks for each URL at most once (it marks it visited), so one answer per URL
  describes a run.
\<close>

record env =
  ip_ok :: "string \<Rightarrow> bool"
  http_get :: "string option \<Rightarrow> document option"
  driver :: bool
  driver_get :: "string option \<Rightarrow> document option"
  seed_get :: "document option"
  seed_driver_get :: "document option"
  set_order :: "string list \<Rightarrow> string list"
  clock :: "string option \<Rightarrow> real"
  save_clock :: real

text \<open>\<^verbatim>\<open>__init__\<close>: empty sets, no data, the base URL alone in the queue.\<close>

definition new_crawler :: "string \<Rightarrow> int \<Rightarrow> crawler" where
  "new_crawler b m =
     \<lparr>base_url = b, max_pages = m, visited_urls = {}, scraped_data = [],
      url_queue = [b], failed_urls = {}\<rparr>"

text \<open>
  \<^verbatim>\<open>is_support_url\<close>. The first two cases are \<^verbatim>\<open>if not url\<close>; the case \<open>Inr None\<close> and the test
  \<open>n = []\<close> are \<^verbatim>\<open>not normalized_url\<close>.
\<close>

definition is_support_url :: "env \<Rightarrow> crawler \<Rightarrow> string option \<Rightarrow> error + bool" where
  "is_support_url e c u =
     (case u of
        None \<Rightarrow> Inr False
      | Some s \<Rightarrow>
          if s = [] then Inr False
          else case normalize_url (ip_ok e) s of
                 Inl err \<Rightarrow> Inl err
               | Inr None \<Rightarrow> Inr False
               | Inr (Some n) \<Rightarrow>
                   if n = [] \<or> Some n \<in> visited_urls c then Inr False
                   else (case urlparse (ip_ok e) n of
                           Inl err \<Rightarrow> Inl err
                         | Inr parsed \<Rightarrow>
                             Inr (netloc parsed = ''www.angelone.in''
                                  \<and> startswith (path parsed) ''/support''
                                  \<and> Some n \<notin> failed_urls c)))"

subsection \<open>Harvesting links\<close>

text \<open>
  A Python set that the code iterates is kept as the list of its elements in insertion
  order; \<open>set_add\<close> is \<^verbatim>\<open>s.add(x)\<close>.
\<close>

definition set_add :: "string \<Rightarrow> string list \<Rightarrow> string list" where
  "set_add x s = (if x \<in> set s then s else s @ [x])"

text \<open>
  The loop over the anchors, which occurs three times in the source (twice in
  \<^verbatim>\<open>discover_all_support_links\<close>, once in \<^verbatim>\<open>extract_support_links_from_page\<close>): normalise
  the joined URL and keep it when \<^verbatim>\<open>is_support_url\<close> accepts it. The result is the set
  built so far and the exception that stopped the loop, if one did.
\<close>

fun add_support_links ::
  "env \<Rightarrow> crawler \<Rightarrow> string list \<Rightarrow> string list \<Rightarrow> string list \<times> error option" where
  "add_support_links e c [] links = (links, None)"
| "add_support_links e c (full_url # rest) links =
     (case normalize_url (ip_ok e) full_url of
        Inl err \<Rightarrow> (links, Some err)
      | Inr normalized_url \<Rightarrow>
          (case is_support_url e c normalized_url of
             Inl err \<Rightarrow> (links, Some err)
           | Inr ok \<Rightarrow>
               (case normalized_url of
                  Some n \<Rightarrow> add_support_links e c rest (if ok then set_add n links else links)
                | None \<Rightarrow> add_support_links e c rest links)))"

text \<open>\<^verbatim>\<open>extract_support_links_from_page\<close>: an exception leaves the function, the set is lost.\<close>

definition extract_support_links_from_page ::
  "env \<Rightarrow> crawler \<Rightarrow> document \<Rightarrow> error + string list" where
  "extract_support_links_from_page e c soup =
     (case add_support_links e c (anchors soup) [] of
        (links, None) \<Rightarrow> Inr links
      | (links, Some err) \<Rightarrow> Inl err)"

text \<open>
  \<^verbatim>\<open>discover_all_support_links\<close>: each pass sits in its own \<^verbatim>\<open>try\<close>, so an exception ends the
  pass and keeps the links found so far. The scrolling and clicking of the second pass
  only talk to the browser; the model describes the runs in which they return.
\<close>

definition discover_all_support_links :: "env \<Rightarrow> crawler \<Rightarrow> string list" where
  "discover_all_support_links e c =
     (let links1 = (case seed_get e of
                      None \<Rightarrow> []
                    | Some soup \<Rightarrow> fst (add_support_links e c (anchors soup) []));
          links2 = (if driver e then
                      (case seed_driver_get e of
                         None \<Rightarrow> links1
                       | Some selenium_soup \<Rightarrow>
                           fst (add_support_links e c (anchors selenium_soup) links1))
                    else links1)
      in set_order e links2)"

text \<open>A list comprehension whose element expression may raise: the first exception wins.\<close>

fun map_raise :: "('a \<Rightarrow> error + 'b) \<Rightarrow> 'a list \<Rightarrow> error + 'b list" where
  "map_raise f [] = Inr []"
| "map_raise f (x # xs) =
     (case f x of
        Inl err \<Rightarrow> Inl err
      | Inr y \<Rightarrow> (case map_raise f xs of Inl err \<Rightarrow> Inl err | Inr ys \<Rightarrow> Inr (y # ys)))"

text \<open>
  Lines 195 to 197: a new link is queued unless it is visited or its value is among the
  normalised queue entries. \<^verbatim>\<open>and\<close> does not evaluate the comprehension for a visited
  link. An exception stops the loop and keeps what was queued.
\<close>

fun enqueue_links :: "env \<Rightarrow> crawler \<Rightarrow> string list \<Rightarrow> crawler \<times> error option" where
  "enqueue_links e c [] = (c, None)"
| "enqueue_links e c (link # rest) =
     (if Some link \<in> visited_urls c then enqueue_links e c rest
      else case map_raise (normalize_url (ip_ok e)) (url_queue c) of
             Inl err \<Rightarrow> (c, Some err)
           | Inr normalized_queue \<Rightarrow>
               if Some link \<notin> set normalized_queue
               then enqueue_links e (c\<lparr>url_queue := url_queue c @ [link]\<rparr>) rest
               else enqueue_links e c rest)"

subsection \<open>Extracting the text of a page\<close>

text \<open>\<^verbatim>\<open>clean_text\<close>: the stripped lines longer than three characters, joined by newlines.\<close>

definition clean_text :: "string \<Rightarrow> string" where
  "clean_text text =
     (if text = [] then []
      else join [CHR 0x0A]
             (filter (\<lambda>line. line \<noteq> [] \<and> length line > 3) (map strip (split (CHR 0x0A) text))))"

definition content_selectors :: "string list" where
  "content_selectors =
     [''.support-content'', ''.help-content'', ''.faq-content'',
      ''.article-content'', ''.main-content'', ''.content'',
      ''main'', ''article'', ''.container .row'', ''.container'']"

definition selenium_selectors :: "string list" where
  "selenium_selectors =
     [''.support-content'', ''.help-content'', ''.faq-content'',
      ''.article-content'', ''.main-content'', ''.content'',
      ''main'', ''article'']"

text \<open>The loop over the selectors: the text of the first selector that matches an element.\<close>

fun first_match :: "(string \<Rightarrow> string option) \<Rightarrow> string list \<Rightarrow> string option" where
  "first_match sel [] = None"
| "first_match sel (selector # rest) =
     (case sel selector of
        Some text \<Rightarrow> Some text
      | None \<Rightarrow> first_match sel rest)"

text \<open>
  \<^verbatim>\<open>scrape_with_selenium\<close>: the first match is returned as it is, also when it is empty; the
  body is the fallback when no selector matches.
\<close>

definition scrape_with_selenium :: "env \<Rightarrow> string option \<Rightarrow> string" where
  "scrape_with_selenium e u =
     (if \<not> driver e then []
      else case driver_get e u of
             None \<Rightarrow> []
           | Some soup \<Rightarrow>
               (case first_match (select_one soup) selenium_selectors of
                  Some text \<Rightarrow> clean_text text
                | None \<Rightarrow> (case body soup of Some text \<Rightarrow> clean_text text | None \<Rightarrow> [])))"

text \<open>
  Lines 216 to 230 of \<^verbatim>\<open>scrape_page_content\<close>: the selector cascade, the body when the
  cascade gave no text (no match, or an empty text), then \<^verbatim>\<open>clean_text\<close>.
\<close>

definition static_content :: "document \<Rightarrow> string" where
  "static_content soup =
     (let content_text = (case first_match (select_one soup) content_selectors of
                            Some text \<Rightarrow> text
                          | None \<Rightarrow> []);
          content_text = (if content_text = []
                          then (case body soup of Some text \<Rightarrow> text | None \<Rightarrow> [])
                          else content_text)
      in clean_text content_text)"

text \<open>Lines 233 to 236: the browser is tried when the static text is short.\<close>

definition with_selenium :: "env \<Rightarrow> string option \<Rightarrow> string \<Rightarrow> string" where
  "with_selenium e u content_text =
     (if length content_text < 200 \<and> driver e then
        (let selenium_content = scrape_with_selenium e u
         in if selenium_content \<noteq> [] \<and> length selenium_content > length content_text
            then selenium_content else content_text)
      else content_text)"

text \<open>
  The body of the \<^verbatim>\<open>try\<close> block of \<^verbatim>\<open>scrape_page_content\<close>: the crawler as the block leaves
  it, and the exception it raised or the value it returned.
\<close>

definition scrape_try ::
  "env \<Rightarrow> crawler \<Rightarrow> string option \<Rightarrow> crawler \<times> (error + page_record option)" where
  "scrape_try e c u =
     (case http_get e u of
        None \<Rightarrow> (c, Inl FetchError)
      | Some soup \<Rightarrow>
          (case extract_support_links_from_page e c soup of
             Inl err \<Rightarrow> (c, Inl err)
           | Inr new_links \<Rightarrow>
               (case enqueue_links e c (set_order e new_links) of
                  (c1, Some err) \<Rightarrow> (c1, Inl err)
                | (c1, None) \<Rightarrow>
                    if raises soup then (c1, Inl ParseError)
                    else
                      (let title = (case title_tag soup of Some t \<Rightarrow> strip t | None \<Rightarrow> []);
                           content_text = with_selenium e u (static_content soup)
                       in if content_text \<noteq> [] \<and> length (strip content_text) > 50
                          then (c1, Inr (Some \<lparr>url = u, title = title, content = content_text,
                                   content_length = int (length content_text),
                                   source_type = ''support_page'', timestamp = clock e u\<rparr>))
                          else (c1, Inr None)))))"

text \<open>\<^verbatim>\<open>scrape_page_content\<close>: the \<^verbatim>\<open>except\<close> clause records the URL as failed and returns \<^verbatim>\<open>None\<close>.\<close>

definition scrape_page_content ::
  "env \<Rightarrow> crawler \<Rightarrow> string option \<Rightarrow> crawler \<times> page_record option" where
  "scrape_page_content e c u =
     (case scrape_try e c u of
        (c1, Inl err) \<Rightarrow> (c1\<lparr>failed_urls := insert u (failed_urls c1)\<rparr>, None)
      | (c1, Inr r) \<Rightarrow> (c1, r))"

subsection \<open>The driver loop\<close>

text \<open>
  The state of the \<^verbatim>\<open>while\<close> loop of \<^verbatim>\<open>crawl_all_support_pages\<close> is the crawler and the local
  \<^verbatim>\<open>scraped_count\<close>. One iteration returns the new state and the exception that left it,
  if one did: \<^verbatim>\<open>normalize_url\<close> at line 349 is outside every \<^verbatim>\<open>try\<close>.
\<close>

definition loop_cond :: "crawler \<times> int \<Rightarrow> bool" where
  "loop_cond st \<longleftrightarrow> url_queue (fst st) \<noteq> [] \<and> snd st < max_pages (fst st)"

definition crawl_iteration :: "env \<Rightarrow> crawler \<times> int \<Rightarrow> (crawler \<times> int) \<times> error option" where
  "crawl_iteration e st =
     (case st of (c, scraped_count) \<Rightarrow>
        (case url_queue c of
           [] \<Rightarrow> (st, Some IndexError)
         | u # rest \<Rightarrow>
             (let c1 = c\<lparr>url_queue := rest\<rparr>
              in case normalize_url (ip_ok e) u of
                   Inl err \<Rightarrow> ((c1, scraped_count), Some err)
                 | Inr normalized_url \<Rightarrow>
                     if normalized_url \<in> visited_urls c1 then ((c1, scraped_count), None)
                     else
                       (case scrape_page_content e c1 normalized_url of
                          (c2, Some page) \<Rightarrow>
                            ((c2\<lparr>scraped_data := scraped_data c2 @ [page],
                                 visited_urls := insert normalized_url (visited_urls c2)\<rparr>,
                              scraped_count + 1), None)
                        | (c2, None) \<Rightarrow>
                            ((c2\<lparr>visited_urls := insert normalized_url (visited_urls c2)\<rparr>,
                              scraped_count), None)))))"

text \<open>
  The loop may run for ever (every page can bring a new link), so it is run for a number
  of iterations: \<open>Exited\<close> means the loop condition became false, \<open>Raised\<close> that an
  exception left the loop, and \<open>Interrupted\<close> that the loop was still running when the
  iterations were used up, which is how the run looks to an operator who stops it at
  that iteration boundary.
\<close>

datatype status = Exited | Raised error | Interrupted

fun crawl_loop :: "env \<Rightarrow> nat \<Rightarrow> crawler \<times> int \<Rightarrow> (crawler \<times> int) \<times> status" where
  "crawl_loop e 0 st = (st, if loop_cond st then Interrupted else Exited)"
| "crawl_loop e (Suc k) st =
     (if \<not> loop_cond st then (st, Exited)
      else case crawl_iteration e st of
             (st1, Some err) \<Rightarrow> (st1, Raised err)
           | (st1, None) \<Rightarrow> crawl_loop e k st1)"

text \<open>
  Lines 325 to 328: the discovered links join the queue. An exception of \<^verbatim>\<open>normalize_url\<close>
  leaves \<^verbatim>\<open>crawl_all_support_pages\<close>.
\<close>

fun add_discovered :: "env \<Rightarrow> crawler \<Rightarrow> string list \<Rightarrow> crawler \<times> error option" where
  "add_discovered e c [] = (c, None)"
| "add_discovered e c (link # rest) =
     (case normalize_url (ip_ok e) link of
        Inl err \<Rightarrow> (c, Some err)
      | Inr None \<Rightarrow> add_discovered e c rest
      | Inr (Some normalized_link) \<Rightarrow>
          if normalized_link = [] then add_discovered e c rest
          else case map_raise (normalize_url (ip_ok e)) (url_queue c) of
                 Inl err \<Rightarrow> (c, Some err)
               | Inr normalized_queue \<Rightarrow>
                   if Some normalized_link \<notin> set normalized_queue
                   then add_discovered e (c\<lparr>url_queue := url_queue c @ [normalized_link]\<rparr>) rest
                   else add_discovered e c rest)"

text \<open>Lines 331 to 337: the queue entries are normalised and the repeated ones dropped.\<close>

fun unique_queue ::
  "env \<Rightarrow> string list \<Rightarrow> string list \<Rightarrow> string set \<Rightarrow> error + string list" where
  "unique_queue e [] unique seen = Inr unique"
| "unique_queue e (u # rest) unique seen =
     (case normalize_url (ip_ok e) u of
        Inl err \<Rightarrow> Inl err
      | Inr None \<Rightarrow> unique_queue e rest unique seen
      | Inr (Some normalized) \<Rightarrow>
          if normalized \<noteq> [] \<and> normalized \<notin> seen
          then unique_queue e rest (unique @ [normalized]) (insert normalized seen)
          else unique_queue e rest unique seen)"

text \<open>
  \<^verbatim>\<open>crawl_all_support_pages\<close>, run for at most \<open>fuel\<close> iterations of its loop: the crawler
  at the end and how the call ended. The value the method returns is \<^verbatim>\<open>self.scraped_data\<close>
  of that crawler.
\<close>

definition crawl_all_support_pages :: "env \<Rightarrow> nat \<Rightarrow> crawler \<Rightarrow> crawler \<times> status" where
  "crawl_all_support_pages e fuel c =
     (let discovered_links = discover_all_support_links e c
      in case add_discovered e c discovered_links of
           (c1, Some err) \<Rightarrow> (c1, Raised err)
         | (c1, None) \<Rightarrow>
             (case unique_queue e (url_queue c1) [] {} of
                Inl err \<Rightarrow> (c1, Raised err)
              | Inr unique \<Rightarrow>
                  (case crawl_loop e fuel (c1\<lparr>url_queue := unique\<rparr>, 0) of
                     ((c2, scraped_count), st) \<Rightarrow> (c2, st))))"

subsection \<open>The summary\<close>

text \<open>
  The dictionary that \<^verbatim>\<open>save_data\<close> builds and writes. \<^verbatim>\<open>list(self.failed_urls)\<close> has no
  specified order; the summary keeps the set.
\<close>

record crawl_info =
  info_base_url :: string
  total_pages_scraped :: int
  total_content_size :: int
  failed_urls_count :: int
  crawl_timestamp :: real

record summary =
  info :: crawl_info
  support_pages :: "page_record list"
  failed_urls_list :: "string option set"

definition save_data :: "env \<Rightarrow> crawler \<Rightarrow> summary" where
  "save_data e c =
     \<lparr>info = \<lparr>info_base_url = base_url c,
               total_pages_scraped = int (length (scraped_data c)),
               total_content_size = (\<Sum>item \<leftarrow> scraped_data c. int (length (content item))),
               failed_urls_count = int (card (failed_urls c)),
               crawl_timestamp = save_clock e\<rparr>,
      support_pages = scraped_data c,
      failed_urls_list = failed_urls c\<rparr>"

text \<open>
  \<^verbatim>\<open>main\<close>: the summary that is written, if one is. \<^verbatim>\<open>save_data\<close> is called after
  \<^verbatim>\<open>crawl_all_support_pages\<close> has returned; the handlers of \<^verbatim>\<open>KeyboardInterrupt\<close> and
  \<^verbatim>\<open>Exception\<close> only print.
\<close>

definition main :: "env \<Rightarrow> nat \<Rightarrow> summary option" where
  "main e fuel =
     (let scraper = new_crawler ''https://www.angelone.in/support'' 1000
      in case crawl_all_support_pages e fuel scraper of
           (c, Exited) \<Rightarrow> Some (save_data e c)
         | (c, Raised err) \<Rightarrow> None
         | (c, Interrupted) \<Rightarrow> None)"

subsection \<open>Notions used to state the properties\<close>

text \<open>Two crawlers that differ in the queue at most.\<close>

definition queue_only :: "crawler \<Rightarrow> crawler \<Rightarrow> bool" where
  "queue_only c c' \<longleftrightarrow> base_url c' = base_url c \<and> max_pages c' = max_pages c \<and>
     visited_urls c' = visited_urls c \<and> scraped_data c' = scraped_data c \<and>
     failed_urls c' = failed_urls c"

text \<open>
  The invariant of the crawl: every failed URL is visited, and the page records carry
  visited URLs that have not failed, each URL once.
\<close>

definition consistent :: "crawler \<Rightarrow> bool" where
  "consistent c \<longleftrightarrow>
     failed_urls c \<subseteq> visited_urls c \<and>
     (\<forall>r \<in> set (scraped_data c). url r \<in> visited_urls c \<and> url r \<notin> failed_urls c) \<and>
     distinct (map url (scraped_data c))"

text \<open>
  What one iteration of the loop does with the URL it pops, as its messages tell: it is
  skipped (a stale duplicate), scraped into a page record, failed with an exception, or
  found to have too little text.
\<close>

datatype outcome = Skipped | Scraped | Failed | Insufficient

definition iteration_outcome :: "env \<Rightarrow> crawler \<times> int \<Rightarrow> outcome" where
  "iteration_outcome e st =
     (case url_queue (fst st) of
        [] \<Rightarrow> Skipped
      | q # rest \<Rightarrow>
          (case normalize_url (ip_ok e) q of
             Inl err \<Rightarrow> Skipped
           | Inr u \<Rightarrow>
               if u \<in> visited_urls (fst st) then Skipped
               else (case snd (scrape_try e ((fst st)\<lparr>url_queue := rest\<rparr>) u) of
                       Inl err \<Rightarrow> Failed
                     | Inr None \<Rightarrow> Insufficient
                     | Inr (Some page) \<Rightarrow> Scraped)))"

text \<open>The outcomes of the iterations that \<open>crawl_loop\<close> completes within \<open>k\<close> iterations.\<close>

fun outcomes :: "env \<Rightarrow> nat \<Rightarrow> crawler \<times> int \<Rightarrow> outcome list" where
  "outcomes e 0 st = []"
| "outcomes e (Suc k) st =
     (if \<not> loop_cond st then []
      else case crawl_iteration e st of
             (st1, Some err) \<Rightarrow> []
           | (st1, None) \<Rightarrow> iteration_outcome e st # outcomes e k st1)"

subsection \<open>A sample site\<close>

text \<open>
  A small site on which the theorems below are instantiated. The seed page links to the
  pages \<open>a\<close> to \<open>e\<close> and to a foreign host; the request for \<open>a\<close> fails, page \<open>d\<close> has
  exactly 50 characters of text, every other page has 60. There is no browser.
\<close>

definition filler :: "nat \<Rightarrow> string" where
  "filler n = replicate n (CHR ''x'')"

definition text_page :: "nat \<Rightarrow> document" where
  "text_page n =
     \<lparr>anchors = [], raises = False, title_tag = None, select_one = (\<lambda>selector. None),
      body = Some (filler n)\<rparr>"

definition seed_page :: document where
  "seed_page = (text_page 60)\<lparr>anchors :=
     [''https://www.angelone.in/support/a?x=1'', ''https://www.angelone.in/support/b/'',
      ''https://www.angelone.in/support/c#top'', ''https://www.angelone.in/support/d'',
      ''https://www.angelone.in/support/e'', ''https://other.example/support/f'']\<rparr>"

definition sample_env :: env where
  "sample_env =
     \<lparr>ip_ok = (\<lambda>host. True),
      http_get = (\<lambda>u. if u = Some ''https://www.angelone.in/support'' then Some seed_page
                      else if u = Some ''https://www.angelone.in/support/a'' then None
                      else if u = Some ''https://www.angelone.in/support/d'' then Some (text_page 50)
                      else Some (text_page 60)),
      driver = False,
      driver_get = (\<lambda>u. None),
      seed_get = None,
      seed_driver_get = None,
      set_order = (\<lambda>links. links),
      clock = (\<lambda>u. 0),
      save_clock = 0\<rparr>"

text \<open>
  The same site seen with a browser: page \<open>b\<close> has 150 characters of static text and 400
  once rendered.
\<close>

definition rendered_env :: env where
  "rendered_env = sample_env\<lparr>
      http_get := (\<lambda>u. Some (text_page 150)),
      driver := True,
      driver_get := (\<lambda>u. Some (text_page 400))\<rparr>"

text \<open>The crawl of the sample site, cut after \<open>k\<close> iterations of the loop.\<close>

definition sample_run :: "nat \<Rightarrow> crawler \<times> status" where
  "sample_run k =
     crawl_all_support_pages sample_env k (new_crawler ''https://www.angelone.in/support'' 1000)"

text \<open>A crawler whose queue holds page \<open>b\<close> twice.\<close>

definition twice_queued :: crawler where
  "twice_queued = (new_crawler ''https://www.angelone.in/support'' 1000)
     \<lparr>url_queue := [''https://www.angelone.in/support/b'', ''https://www.angelone.in/support/b/'']\<rparr>"

section \<open>Properties\<close>

subsection \<open>Normalisation\<close>

lemmas url_eval = normalize_url_def urlparse_def urlsplit_def Let_def before_def after_def
  splitnetloc_def netloc_delim_def c0_control_or_space_def unsafe_url_byte_def ascii_alpha_def
  scheme_char_def ascii_digit_def lower_def uses_params_def endswith_slash_def splitparams_def
  rfind_def


text \<open>
  C6. A URL whose path is exactly \<^verbatim>\<open>/\<close> loses its slash: the guard \<^verbatim>\<open>len(normalized) > 1\<close>
  measures the assembled URL, which always contains \<^verbatim>\<open>://\<close>, so it never holds the slash
  back.
\<close>

theorem normalize_url_root_slash:
  "normalize_url ip ''https://site/'' = Inr (Some ''https://site'')"
  by (simp add: url_eval)

lemma normalize_url_nonempty: "normalize_url ip s = Inr (Some n) \<Longrightarrow> s \<noteq> [] \<and> n \<noteq> []"
  by (auto simp: normalize_url_def Let_def endswith_slash_def butlast_append
           split: if_splits sum.splits)

subsection \<open>The scope test\<close>

text \<open>
  C3 (as amended). \<^verbatim>\<open>is_support_url\<close> accepts a URL exactly when the host of its normal form
  is the target host, the path starts with \<^verbatim>\<open>/support\<close>, and the normal form is neither
  visited nor failed: the crawl state is consulted, through these two memberships only.
\<close>

theorem is_support_url_iff:
  assumes "normalize_url (ip_ok e) s = Inr (Some n)" and "urlparse (ip_ok e) n = Inr parsed"
  shows "is_support_url e c (Some s) =
           Inr (netloc parsed = ''www.angelone.in'' \<and> startswith (path parsed) ''/support''
                \<and> Some n \<notin> visited_urls c \<and> Some n \<notin> failed_urls c)"
  using assms normalize_url_nonempty[OF assms(1)] by (auto simp: is_support_url_def)

lemma faq_normal_form:
  "normalize_url ip ''https://www.angelone.in/support/faq'' =
     Inr (Some ''https://www.angelone.in/support/faq'')"
  by (simp add: url_eval)

lemma faq_parsed:
  "urlparse ip ''https://www.angelone.in/support/faq'' =
     Inr \<lparr>scheme = ''https'', netloc = ''www.angelone.in'', path = ''/support/faq'',
          params = [], query = [], fragment = []\<rparr>"
  by (simp add: url_eval)

theorem is_support_url_iff_witness:
  "is_support_url sample_env (new_crawler ''https://www.angelone.in/support'' 1000)
     (Some ''https://www.angelone.in/support/faq'') = Inr True"
  using is_support_url_iff[of sample_env "''https://www.angelone.in/support/faq''"
      "''https://www.angelone.in/support/faq''" _
      "new_crawler ''https://www.angelone.in/support'' 1000", OF faq_normal_form faq_parsed]
  by (simp add: new_crawler_def startswith_def)

text \<open>
  The same URL is in scope for a fresh crawler and out of scope once it is visited, so
  the test is not a function of the URL alone.
\<close>

theorem is_support_url_state_counterexample:
  "is_support_url sample_env (new_crawler ''https://www.angelone.in/support'' 1000)
     (Some ''https://www.angelone.in/support/faq'') = Inr True \<and>
   is_support_url sample_env
     ((new_crawler ''https://www.angelone.in/support'' 1000)
        \<lparr>visited_urls := {Some ''https://www.angelone.in/support/faq''}\<rparr>)
     (Some ''https://www.angelone.in/support/faq'') = Inr False"
  by (simp add: is_support_url_def faq_normal_form faq_parsed new_crawler_def startswith_def)

subsection \<open>What the extractor changes\<close>

lemma queue_only_refl: "queue_only c c"
  by (simp add: queue_only_def)

lemma queue_only_trans: "queue_only a b \<Longrightarrow> queue_only b c \<Longrightarrow> queue_only a c"
  by (simp add: queue_only_def)

lemma queue_only_update: "queue_only c (c\<lparr>url_queue := q\<rparr>)"
  by (simp add: queue_only_def)

lemma enqueue_links_queue_only: "queue_only c (fst (enqueue_links e c ls))"
proof (induction ls arbitrary: c)
  case Nil
  show ?case by (simp add: queue_only_refl)
next
  case (Cons link rest)
  have step: "queue_only c (fst (enqueue_links e (c\<lparr>url_queue := url_queue c @ [link]\<rparr>) rest))"
    by (rule queue_only_trans[OF queue_only_update Cons.IH])
  show ?case
    using Cons.IH[of c] step by (simp add: queue_only_refl split: sum.splits)
qed

lemma enqueue_links_queue_onlyD: "enqueue_links e c ls = (c1, r) \<Longrightarrow> queue_only c c1"
  using enqueue_links_queue_only[of c e ls] by simp

lemma scrape_try_queue_only: "queue_only c (fst (scrape_try e c u))"
  by (auto simp: scrape_try_def Let_def queue_only_refl
           split: option.splits sum.splits prod.splits dest: enqueue_links_queue_onlyD)

subsection \<open>Cleaned text has no blanks at its ends\<close>

lemma strip_id: "s = [] \<or> (\<not> isspace (hd s) \<and> \<not> isspace (last s)) \<Longrightarrow> strip s = s"
proof (cases s)
  case Nil then show ?thesis by (simp add: strip_def)
next
  case (Cons a t)
  assume "s = [] \<or> (\<not> isspace (hd s) \<and> \<not> isspace (last s))"
  with Cons have a: "\<not> isspace a" and l: "\<not> isspace (last s)" by auto
  have "dropWhile isspace s = s" using a Cons by simp
  moreover have "\<not> isspace (hd (rev s))" using l by (simp add: hd_rev)
  then have "dropWhile isspace (rev s) = rev s"
    by (simp only: dropWhile_eq_self_iff) simp
  ultimately show ?thesis by (simp add: strip_def)
qed

lemma strip_ends: "strip s \<noteq> [] \<Longrightarrow> \<not> isspace (hd (strip s)) \<and> \<not> isspace (last (strip s))"
proof -
  assume ne: "strip s \<noteq> []"
  let ?t = "dropWhile isspace (rev (dropWhile isspace s))"
  have t: "?t \<noteq> []" using ne by (simp add: strip_def)
  have "\<not> isspace (hd ?t)" using t by (rule hd_dropWhile)
  then have last_ok: "\<not> isspace (last (strip s))" using t by (simp add: strip_def last_rev)
  have d: "dropWhile isspace s \<noteq> []"
  proof
    assume "dropWhile isspace s = []"
    then have "?t = dropWhile isspace (rev [])" by (simp only:)
    with t show False by simp
  qed
  have "hd (strip s) = last ?t" using t by (simp add: strip_def hd_rev)
  also have "\<dots> = last (rev (dropWhile isspace s))"
  proof -
    obtain ys where ys: "rev (dropWhile isspace s) = takeWhile isspace (rev (dropWhile isspace s)) @ ?t"
      by simp
    show ?thesis using t by (metis last_appendR takeWhile_dropWhile_id)
  qed
  also have "\<dots> = hd (dropWhile isspace s)" using d by (simp add: last_rev)
  finally have "hd (strip s) = hd (dropWhile isspace s)" .
  then have "\<not> isspace (hd (strip s))" using d hd_dropWhile by metis
  with last_ok show ?thesis by simp
qed

lemma join_ends:
  "ls \<noteq> [] \<Longrightarrow> \<forall>l \<in> set ls. l \<noteq> [] \<Longrightarrow> join sep ls \<noteq> [] \<and> hd (join sep ls) = hd (hd ls) \<and> last (join sep ls) = last (last ls)"
proof (induction sep ls rule: join.induct)
  case (1 sep) then show ?case by simp
next
  case (2 sep x) then show ?case by simp
next
  case (3 sep x y ys)
  then show ?case by auto
qed

lemma strip_clean_text: "strip (clean_text t) = clean_text t"
proof (cases "clean_text t = []")
  case True then show ?thesis by (simp add: strip_def)
next
  case False
  let ?ls = "filter (\<lambda>line. line \<noteq> [] \<and> length line > 3) (map strip (split (CHR 0x0A) t))"
  from False have ct: "clean_text t = join [CHR 0x0A] ?ls" and ne: "?ls \<noteq> []"
    by (auto simp: clean_text_def split: if_splits)
  have all: "\<forall>l \<in> set ?ls. l \<noteq> []" by auto
  have hd_in: "hd ?ls \<in> set ?ls" by (rule hd_in_set[OF ne])
  have last_in: "last ?ls \<in> set ?ls" by (rule last_in_set[OF ne])
  have "\<exists>x. hd ?ls = strip x \<and> strip x \<noteq> []" using hd_in by auto
  then have h: "\<not> isspace (hd (hd ?ls))" using strip_ends by auto
  have "\<exists>x. last ?ls = strip x \<and> strip x \<noteq> []" using last_in by auto
  then have l: "\<not> isspace (last (last ?ls))" using strip_ends by auto
  from join_ends[OF ne all, of "[CHR 0x0A]"] h l ct
  show ?thesis by (intro strip_id) simp
qed

lemma strip_Nil: "strip [] = []"
  by (simp add: strip_def)

lemma strip_scrape_with_selenium: "strip (scrape_with_selenium e u) = scrape_with_selenium e u"
  by (auto simp: scrape_with_selenium_def strip_clean_text strip_Nil split: option.splits)

lemma strip_static_content: "strip (static_content soup) = static_content soup"
  by (simp add: static_content_def Let_def strip_clean_text)

lemma strip_with_selenium:
  "strip (with_selenium e u (static_content soup)) = with_selenium e u (static_content soup)"
  by (simp add: with_selenium_def Let_def strip_scrape_with_selenium strip_static_content)

subsection \<open>The outcomes of the extractor\<close>

lemma scrape_try_returns:
  assumes "http_get e u = Some soup" and "snd (scrape_try e c u) = Inr r"
  shows "r = (if length (with_selenium e u (static_content soup)) > 50
              then Some \<lparr>url = u, title = (case title_tag soup of Some t \<Rightarrow> strip t | None \<Rightarrow> []),
                     content = with_selenium e u (static_content soup),
                     content_length = int (length (with_selenium e u (static_content soup))),
                     source_type = ''support_page'', timestamp = clock e u\<rparr>
              else None)"
  using assms
  by (auto simp: scrape_try_def Let_def strip_with_selenium
           split: option.splits sum.splits prod.splits if_splits)

lemma scrape_page_content_raised:
  "isl (snd (scrape_try e c u)) \<Longrightarrow>
     snd (scrape_page_content e c u) = None \<and>
     failed_urls (fst (scrape_page_content e c u)) = insert u (failed_urls c)"
  using scrape_try_queue_only[of c e u]
  by (cases "scrape_try e c u") (auto simp: scrape_page_content_def queue_only_def split: sum.splits)

lemma scrape_page_content_returned:
  "\<not> isl (snd (scrape_try e c u)) \<Longrightarrow>
     snd (scrape_try e c u) = Inr (snd (scrape_page_content e c u)) \<and>
     failed_urls (fst (scrape_page_content e c u)) = failed_urls c"
  using scrape_try_queue_only[of c e u]
  by (cases "scrape_try e c u") (auto simp: scrape_page_content_def queue_only_def split: sum.splits)

lemma scrape_page_content_visited:
  "visited_urls (fst (scrape_page_content e c u)) = visited_urls c"
  using scrape_try_queue_only[of c e u]
  by (cases "scrape_try e c u") (auto simp: scrape_page_content_def queue_only_def split: sum.splits)

lemma crawl_iteration_marks_visited:
  assumes "url_queue c = q # rest" and "normalize_url (ip_ok e) q = Inr u"
  shows "u \<in> visited_urls (fst (fst (crawl_iteration e (c, k))))"
proof (cases "u \<in> visited_urls c")
  case True
  then show ?thesis using assms by (simp add: crawl_iteration_def)
next
  case False
  obtain c2 r where s: "scrape_page_content e (c\<lparr>url_queue := rest\<rparr>) u = (c2, r)"
    by (cases "scrape_page_content e (c\<lparr>url_queue := rest\<rparr>) u")
  show ?thesis using assms False s
    by (cases r) (simp_all add: crawl_iteration_def)
qed

text \<open>
  C2 (as amended). When the \<^verbatim>\<open>try\<close> block of \<^verbatim>\<open>scrape_page_content\<close> raises, as it does when
  the request fails or a call on the parsed page raises, the method returns \<^verbatim>\<open>None\<close> and adds
  the URL to \<^verbatim>\<open>failed_urls\<close>. When it does not raise, \<^verbatim>\<open>failed_urls\<close> is left as it was and a
  page record is returned exactly when the cleaned text is longer than 50 characters: a
  text of 50 characters or fewer gives \<^verbatim>\<open>None\<close>. Whatever the outcome, the loop iteration
  that processes the URL leaves it in \<^verbatim>\<open>visited_urls\<close>.
\<close>

theorem extract_outcomes:
  "(isl (snd (scrape_try e c u)) \<longrightarrow>
      snd (scrape_page_content e c u) = None \<and>
      failed_urls (fst (scrape_page_content e c u)) = insert u (failed_urls c))
   \<and> (http_get e u = None \<longrightarrow> isl (snd (scrape_try e c u)))
   \<and> (\<forall>soup. http_get e u = Some soup \<and> raises soup \<longrightarrow> isl (snd (scrape_try e c u)))
   \<and> (\<forall>soup. http_get e u = Some soup \<and> \<not> isl (snd (scrape_try e c u)) \<longrightarrow>
         failed_urls (fst (scrape_page_content e c u)) = failed_urls c \<and>
         (snd (scrape_page_content e c u) \<noteq> None
            \<longleftrightarrow> length (with_selenium e u (static_content soup)) > 50))
   \<and> (\<forall>(c0::crawler) q rest k. url_queue c0 = q # rest \<and> normalize_url (ip_ok e) q = Inr u \<longrightarrow>
         u \<in> visited_urls (fst (fst (crawl_iteration e (c0, k)))))"
proof (intro conjI allI impI)
  assume "isl (snd (scrape_try e c u))"
  then show "snd (scrape_page_content e c u) = None"
    and "failed_urls (fst (scrape_page_content e c u)) = insert u (failed_urls c)"
    using scrape_page_content_raised by auto
next
  assume "http_get e u = None"
  then show "isl (snd (scrape_try e c u))" by (simp add: scrape_try_def)
next
  fix soup assume "http_get e u = Some soup \<and> raises soup"
  then show "isl (snd (scrape_try e c u))"
    by (auto simp: scrape_try_def split: sum.splits prod.splits option.splits)
next
  fix soup assume h: "http_get e u = Some soup \<and> \<not> isl (snd (scrape_try e c u))"
  then show "failed_urls (fst (scrape_page_content e c u)) = failed_urls c"
    using scrape_page_content_returned by auto
  from h have "snd (scrape_try e c u) = Inr (snd (scrape_page_content e c u))"
    using scrape_page_content_returned by auto
  from scrape_try_returns[OF _ this] h
  show "snd (scrape_page_content e c u) \<noteq> None
            \<longleftrightarrow> length (with_selenium e u (static_content soup)) > 50"
    by (auto split: if_splits)
next
  fix c0 :: crawler and q rest k
  assume "url_queue c0 = q # rest \<and> normalize_url (ip_ok e) q = Inr u"
  then show "u \<in> visited_urls (fst (fst (crawl_iteration e (c0, k))))"
    using crawl_iteration_marks_visited by auto
qed

lemma page_d_get:
  "http_get sample_env (Some ''https://www.angelone.in/support/d'') = Some (text_page 50)"
  by (simp add: sample_env_def)

lemma page_d_eval:
  "\<not> isl (snd (scrape_try sample_env (new_crawler ''https://www.angelone.in/support'' 1000)
           (Some ''https://www.angelone.in/support/d'')))"
  "length (with_selenium sample_env (Some ''https://www.angelone.in/support/d'')
           (static_content (text_page 50))) = 50"
  "snd (scrape_page_content sample_env (new_crawler ''https://www.angelone.in/support'' 1000)
         (Some ''https://www.angelone.in/support/d'')) = None"
  by code_simp+

theorem extract_outcomes_witness:
  "snd (scrape_page_content sample_env (new_crawler ''https://www.angelone.in/support'' 1000)
         (Some ''https://www.angelone.in/support/d'')) = None \<and>
   failed_urls (fst (scrape_page_content sample_env
         (new_crawler ''https://www.angelone.in/support'' 1000)
         (Some ''https://www.angelone.in/support/d''))) = {}"
  using extract_outcomes[of sample_env "new_crawler ''https://www.angelone.in/support'' 1000"
          "Some ''https://www.angelone.in/support/d''"] page_d_get page_d_eval(1,2)
  by (simp add: new_crawler_def)

text \<open>
  Page \<open>d\<close> of the sample site is fetched without an error and its cleaned text has 50
  characters, which is not shorter than 50; no page record is returned for it.
\<close>

theorem extract_fifty_counterexample:
  "http_get sample_env (Some ''https://www.angelone.in/support/d'') = Some (text_page 50) \<and>
   \<not> isl (snd (scrape_try sample_env (new_crawler ''https://www.angelone.in/support'' 1000)
           (Some ''https://www.angelone.in/support/d''))) \<and>
   length (with_selenium sample_env (Some ''https://www.angelone.in/support/d'')
           (static_content (text_page 50))) = 50 \<and>
   snd (scrape_page_content sample_env (new_crawler ''https://www.angelone.in/support'' 1000)
         (Some ''https://www.angelone.in/support/d'')) = None"
  using page_d_get page_d_eval by simp

subsection \<open>The rendered fallback\<close>

text \<open>
  C8. With a browser, a cleaned static text shorter than 200 characters and no exception,
  the extractor asks the browser for the page. If the rendered text is strictly longer
  than the static text and longer than 50 characters, a page record is returned and
  holds the rendered text; if the rendered text is not longer and the static text is
  longer than 50 characters, a page record is returned and holds the static text; and
  any page record returned holds the rendered text exactly when it is strictly longer.
  On the sample site seen with a browser the static text has 150 characters, the
  rendered text 400, and the record returned holds the 400 characters.
\<close>

theorem rendered_fallback:
  assumes "http_get e u = Some soup" and "driver e" and "length (static_content soup) < 200"
    and "\<not> isl (snd (scrape_try e c u))"
  shows "(length (scrape_with_selenium e u) > length (static_content soup) \<and>
          length (scrape_with_selenium e u) > 50 \<longrightarrow>
            (\<exists>r. snd (scrape_page_content e c u) = Some r \<and>
                 content r = scrape_with_selenium e u \<and>
                 content_length r = int (length (scrape_with_selenium e u)))) \<and>
         (\<not> length (scrape_with_selenium e u) > length (static_content soup) \<and>
          length (static_content soup) > 50 \<longrightarrow>
            (\<exists>r. snd (scrape_page_content e c u) = Some r \<and>
                 content r = static_content soup)) \<and>
         (\<forall>r. snd (scrape_page_content e c u) = Some r \<longrightarrow>
            content r = (if length (scrape_with_selenium e u) > length (static_content soup)
                         then scrape_with_selenium e u else static_content soup))"
proof -
  let ?static = "static_content soup" and ?rendered = "scrape_with_selenium e u"
  have final: "with_selenium e u ?static =
                 (if length ?rendered > length ?static then ?rendered else ?static)"
    using assms(2,3) by (auto simp: with_selenium_def Let_def)
  have ret: "snd (scrape_try e c u) = Inr (snd (scrape_page_content e c u))"
    using scrape_page_content_returned[OF assms(4)] by simp
  note result = scrape_try_returns[OF assms(1) ret]
  show ?thesis
  proof (intro conjI allI impI)
    assume "length ?rendered > length ?static \<and> length ?rendered > 50"
    then show "\<exists>r. snd (scrape_page_content e c u) = Some r \<and> content r = ?rendered \<and>
                 content_length r = int (length ?rendered)"
      using result final by simp
  next
    assume "\<not> length ?rendered > length ?static \<and> length ?static > 50"
    then show "\<exists>r. snd (scrape_page_content e c u) = Some r \<and> content r = ?static"
      using result final by simp
  next
    fix r assume "snd (scrape_page_content e c u) = Some r"
    then show "content r = (if length ?rendered > length ?static then ?rendered else ?static)"
      using result final by (auto split: if_splits)
  qed
qed

lemma page_b_get:
  "http_get rendered_env (Some ''https://www.angelone.in/support/b'') = Some (text_page 150)"
  "driver rendered_env"
  by (simp_all add: rendered_env_def)

lemma page_b_eval:
  "length (static_content (text_page 150)) = 150"
  "length (scrape_with_selenium rendered_env (Some ''https://www.angelone.in/support/b'')) = 400"
  "snd (scrape_page_content rendered_env (new_crawler ''https://www.angelone.in/support'' 1000)
         (Some ''https://www.angelone.in/support/b'')) =
     Some \<lparr>url = Some ''https://www.angelone.in/support/b'', title = [], content = filler 400,
           content_length = 400, source_type = ''support_page'', timestamp = 0\<rparr>"
  by code_simp+

lemma page_b_no_exception:
  "\<not> isl (snd (scrape_try rendered_env (new_crawler ''https://www.angelone.in/support'' 1000)
           (Some ''https://www.angelone.in/support/b'')))"
  by code_simp

theorem rendered_fallback_witness:
  "length (static_content (text_page 150)) = 150 \<and>
   length (scrape_with_selenium rendered_env (Some ''https://www.angelone.in/support/b'')) = 400 \<and>
   (\<exists>r. snd (scrape_page_content rendered_env (new_crawler ''https://www.angelone.in/support'' 1000)
              (Some ''https://www.angelone.in/support/b'')) = Some r \<and>
        content r = scrape_with_selenium rendered_env (Some ''https://www.angelone.in/support/b'') \<and>
        content_length r = 400)"
  using rendered_fallback[OF page_b_get(1) page_b_get(2) _ page_b_no_exception, THEN conjunct1]
    page_b_eval(1,2)
  by simp

subsection \<open>The invariant of the crawl\<close>

lemma scrape_try_url: "snd (scrape_try e c u) = Inr (Some r) \<Longrightarrow> url r = u"
  by (auto simp: scrape_try_def Let_def split: option.splits sum.splits prod.splits if_splits)

lemma scrape_page_content_cases:
  assumes "scrape_page_content e c u = (c2, r)"
  shows "visited_urls c2 = visited_urls c \<and> scraped_data c2 = scraped_data c \<and>
         max_pages c2 = max_pages c \<and> base_url c2 = base_url c \<and>
         ((isl (snd (scrape_try e c u)) \<and> r = None \<and> failed_urls c2 = insert u (failed_urls c)) \<or>
          (snd (scrape_try e c u) = Inr r \<and> failed_urls c2 = failed_urls c \<and> (\<forall>p. r = Some p \<longrightarrow> url p = u)))"
proof (cases "scrape_try e c u")
  case (Pair c1 res)
  have q: "queue_only c c1" using scrape_try_queue_only[of c e u] Pair by simp
  show ?thesis
  proof (cases res)
    case (Inl err)
    then show ?thesis using assms Pair q by (auto simp: scrape_page_content_def queue_only_def)
  next
    case (Inr x)
    then have "url p = u" if "x = Some p" for p using scrape_try_url[of e c u p] Pair that by simp
    then show ?thesis using assms Pair q Inr by (auto simp: scrape_page_content_def queue_only_def)
  qed
qed

lemma consistent_queue_only: "queue_only c c' \<Longrightarrow> consistent c \<Longrightarrow> consistent c'"
  by (simp add: queue_only_def consistent_def)

lemma consistent_new_crawler: "consistent (new_crawler b m)"
  by (simp add: consistent_def new_crawler_def)

lemma crawl_iteration_consistent:
  assumes "consistent c"
  shows "consistent (fst (fst (crawl_iteration e (c, k))))"
proof (cases "url_queue c")
  case Nil
  then show ?thesis using assms by (simp add: crawl_iteration_def)
next
  case (Cons q rest)
  let ?c1 = "c\<lparr>url_queue := rest\<rparr>"
  have c1: "consistent ?c1" using assms by (simp add: consistent_def)
  show ?thesis
  proof (cases "normalize_url (ip_ok e) q")
    case (Inl err)
    then show ?thesis using Cons c1 by (simp add: crawl_iteration_def)
  next
    case (Inr u)
    show ?thesis
    proof (cases "u \<in> visited_urls c")
      case True
      then show ?thesis using Cons Inr c1 by (simp add: crawl_iteration_def)
    next
      case False
      obtain c2 r where s: "scrape_page_content e ?c1 u = (c2, r)"
        by (cases "scrape_page_content e ?c1 u")
      note facts = scrape_page_content_cases[OF s]
      have notin: "u \<notin> failed_urls c" "\<forall>p \<in> set (scraped_data c). url p \<noteq> u"
        using assms False by (auto simp: consistent_def)
      show ?thesis
      proof (cases r)
        case None
        then have "fst (fst (crawl_iteration e (c, k))) = c2\<lparr>visited_urls := insert u (visited_urls c2)\<rparr>"
          using Cons Inr False s by (simp add: crawl_iteration_def)
        moreover have "consistent (c2\<lparr>visited_urls := insert u (visited_urls c2)\<rparr>)"
          using facts assms notin None by (auto simp: consistent_def)
        ultimately show ?thesis by simp
      next
        case (Some p)
        then have "fst (fst (crawl_iteration e (c, k))) =
            c2\<lparr>scraped_data := scraped_data c2 @ [p], visited_urls := insert u (visited_urls c2)\<rparr>"
          using Cons Inr False s by (simp add: crawl_iteration_def)
        moreover have "consistent (c2\<lparr>scraped_data := scraped_data c2 @ [p],
                                     visited_urls := insert u (visited_urls c2)\<rparr>)"
          using facts assms notin Some by (auto simp: consistent_def)
        ultimately show ?thesis by simp
      qed
    qed
  qed
qed

lemma crawl_loop_consistent:
  "consistent (fst st) \<Longrightarrow> consistent (fst (fst (crawl_loop e fuel st)))"
proof (induction fuel arbitrary: st)
  case 0
  then show ?case by simp
next
  case (Suc fuel)
  obtain c k where st: "st = (c, k)" by (cases st)
  obtain st1 r where it: "crawl_iteration e st = (st1, r)" by (cases "crawl_iteration e st")
  have "consistent (fst st1)"
    using crawl_iteration_consistent[of c e k] Suc.prems st it by simp
  then show ?case using Suc it by (cases r) simp_all
qed

lemma add_discovered_queue_only: "queue_only c (fst (add_discovered e c ls))"
proof (induction ls arbitrary: c)
  case Nil
  show ?case by (simp add: queue_only_refl)
next
  case (Cons link rest)
  have step: "queue_only c (fst (add_discovered e (c\<lparr>url_queue := url_queue c @ [x]\<rparr>) rest))" for x
    by (rule queue_only_trans[OF queue_only_update Cons.IH])
  show ?case
    using Cons.IH[of c] step by (simp add: queue_only_refl split: sum.splits option.splits)
qed

lemma crawl_all_consistent:
  assumes "consistent c"
  shows "consistent (fst (crawl_all_support_pages e fuel c))"
proof -
  obtain c1 r where a: "add_discovered e c (discover_all_support_links e c) = (c1, r)"
    by (cases "add_discovered e c (discover_all_support_links e c)")
  have c1: "consistent c1"
    using add_discovered_queue_only[of c e "discover_all_support_links e c"] a assms
    by (auto intro: consistent_queue_only)
  have c1q: "consistent (c1\<lparr>url_queue := q\<rparr>)" for q
    using c1 by (simp add: consistent_def)
  have loop: "crawl_loop e fuel (c1\<lparr>url_queue := q\<rparr>, 0) = ((c2, k), st) \<Longrightarrow> consistent c2"
    for q c2 k st
    using crawl_loop_consistent[of "(c1\<lparr>url_queue := q\<rparr>, 0)" e fuel] c1q[of q] by simp
  show ?thesis
    using a c1 loop
    by (auto simp: crawl_all_support_pages_def Let_def split: option.splits sum.splits prod.splits)
qed

subsection \<open>The sets and the output of a crawl\<close>

text \<open>
  C1 (as amended). At every iteration boundary of every crawl, each URL of a page record
  is in \<^verbatim>\<open>visited_urls\<close> and not in \<^verbatim>\<open>failed_urls\<close>. The two sets themselves are not
  disjoint: a failed URL is in both.
\<close>

theorem outputs_visited_not_failed:
  "\<forall>r \<in> set (scraped_data (fst (crawl_all_support_pages e fuel (new_crawler b m)))).
      url r \<in> visited_urls (fst (crawl_all_support_pages e fuel (new_crawler b m))) \<and>
      url r \<notin> failed_urls (fst (crawl_all_support_pages e fuel (new_crawler b m)))"
  using crawl_all_consistent[OF consistent_new_crawler, of e fuel b m]
  by (simp add: consistent_def)

lemma sample_run_2:
  "\<lparr>url = Some ''https://www.angelone.in/support'', title = [], content = filler 60,
     content_length = 60, source_type = ''support_page'', timestamp = 0\<rparr>
     \<in> set (scraped_data (fst (sample_run 2)))"
  "Some ''https://www.angelone.in/support/a'' \<in> failed_urls (fst (sample_run 2))"
  "snd (sample_run 2) = Interrupted"
  by code_simp+

theorem outputs_visited_not_failed_witness:
  "Some ''https://www.angelone.in/support'' \<in> visited_urls (fst (sample_run 2)) \<and>
   Some ''https://www.angelone.in/support'' \<notin> failed_urls (fst (sample_run 2))"
  using outputs_visited_not_failed[of sample_env 2 "''https://www.angelone.in/support''" 1000]
    sample_run_2(1)
  unfolding sample_run_def by fastforce

text \<open>
  After two iterations on the sample site the request for page \<open>a\<close> has failed, and the
  page is both visited and failed.
\<close>

theorem visited_failed_overlap_counterexample:
  "Some ''https://www.angelone.in/support/a''
     \<in> visited_urls (fst (sample_run 2)) \<inter> failed_urls (fst (sample_run 2))"
  by code_simp

text \<open>
  C7. No URL occurs twice among the page records, at any iteration boundary of a crawl;
  the same holds for the loop started on any queue, with repeated entries or not, as
  long as there are no records and no failed URLs at the start.
\<close>

theorem output_urls_distinct:
  "distinct (map url (scraped_data (fst (crawl_all_support_pages e fuel (new_crawler b m))))) \<and>
   (\<forall>c k. scraped_data c = [] \<and> failed_urls c = {} \<longrightarrow>
      distinct (map url (scraped_data (fst (fst (crawl_loop e fuel (c, k)))))))"
proof (intro conjI allI impI)
  show "distinct (map url (scraped_data (fst (crawl_all_support_pages e fuel (new_crawler b m)))))"
    using crawl_all_consistent[OF consistent_new_crawler, of e fuel b m]
    by (simp add: consistent_def)
next
  fix c :: crawler and k :: int
  assume "scraped_data c = [] \<and> failed_urls c = {}"
  then have "consistent (fst (c, k))" by (simp add: consistent_def)
  from crawl_loop_consistent[OF this, of e fuel]
  show "distinct (map url (scraped_data (fst (fst (crawl_loop e fuel (c, k))))))"
    by (simp add: consistent_def)
qed

text \<open>Two queue entries for page \<open>b\<close> give one page record.\<close>

lemma twice_queued_run:
  "map url (scraped_data (fst (fst (crawl_loop sample_env 3 (twice_queued, 0))))) =
     [Some ''https://www.angelone.in/support/b'']"
  by code_simp

theorem output_urls_distinct_witness:
  "distinct (map url (scraped_data (fst (fst (crawl_loop sample_env 3 (twice_queued, 0))))))"
  using output_urls_distinct[of sample_env 3 "[]" 0, THEN conjunct2, rule_format, of twice_queued 0]
  by (simp add: twice_queued_def new_crawler_def)

text \<open>
  C10. An iteration that processes a URL leaves it in \<^verbatim>\<open>visited_urls\<close> whatever the
  outcome, also when the scrape raised and the URL went to \<^verbatim>\<open>failed_urls\<close>; so at every
  iteration boundary of a crawl every failed URL is visited.
\<close>

theorem processed_urls_visited:
  "failed_urls (fst (crawl_all_support_pages e fuel (new_crawler b m)))
     \<subseteq> visited_urls (fst (crawl_all_support_pages e fuel (new_crawler b m))) \<and>
   (\<forall>c q rest k u. url_queue c = q # rest \<and> normalize_url (ip_ok e) q = Inr u \<and>
        u \<notin> visited_urls c \<longrightarrow>
      u \<in> visited_urls (fst (fst (crawl_iteration e (c, k)))) \<and>
      (isl (snd (scrape_try e (c\<lparr>url_queue := rest\<rparr>) u)) \<longrightarrow>
         u \<in> failed_urls (fst (fst (crawl_iteration e (c, k))))))"
proof (intro conjI allI impI)
  show "failed_urls (fst (crawl_all_support_pages e fuel (new_crawler b m)))
     \<subseteq> visited_urls (fst (crawl_all_support_pages e fuel (new_crawler b m)))"
    using crawl_all_consistent[OF consistent_new_crawler, of e fuel b m]
    by (simp add: consistent_def)
next
  fix c :: crawler and q rest k u
  assume h: "url_queue c = q # rest \<and> normalize_url (ip_ok e) q = Inr u \<and> u \<notin> visited_urls c"
  then show "u \<in> visited_urls (fst (fst (crawl_iteration e (c, k))))"
    using crawl_iteration_marks_visited by simp
  assume raised: "isl (snd (scrape_try e (c\<lparr>url_queue := rest\<rparr>) u))"
  obtain c2 r where s: "scrape_page_content e (c\<lparr>url_queue := rest\<rparr>) u = (c2, r)"
    by (cases "scrape_page_content e (c\<lparr>url_queue := rest\<rparr>) u")
  from scrape_page_content_cases[OF s] raised
  have "r = None" and "failed_urls c2 = insert u (failed_urls c)" by auto
  then show "u \<in> failed_urls (fst (fst (crawl_iteration e (c, k))))"
    using h s by (simp add: crawl_iteration_def)
qed

theorem processed_urls_visited_witness:
  "Some ''https://www.angelone.in/support/a'' \<in> visited_urls (fst (sample_run 2))"
  using processed_urls_visited[of sample_env 2 "''https://www.angelone.in/support''" 1000,
          THEN conjunct1] sample_run_2(2)
  unfolding sample_run_def by blast

subsection \<open>When the loop stops\<close>

lemma crawl_iteration_count:
  assumes "crawl_iteration e (c, n) = ((c', n'), r)"
  shows "max_pages c' = max_pages c \<and>
         ((n' = n \<and> scraped_data c' = scraped_data c) \<or>
          (n' = n + 1 \<and> (\<exists>p. scraped_data c' = scraped_data c @ [p])))"
proof (cases "url_queue c")
  case Nil
  then show ?thesis using assms by (auto simp: crawl_iteration_def)
next
  case (Cons q rest)
  let ?c1 = "c\<lparr>url_queue := rest\<rparr>"
  show ?thesis
  proof (cases "normalize_url (ip_ok e) q")
    case (Inl err)
    then show ?thesis using Cons assms by (auto simp: crawl_iteration_def)
  next
    case (Inr u)
    obtain c2 res where s: "scrape_page_content e ?c1 u = (c2, res)"
      by (cases "scrape_page_content e ?c1 u")
    note facts = scrape_page_content_cases[OF s]
    show ?thesis using Cons Inr assms s facts
      by (cases res) (auto simp: crawl_iteration_def Let_def split: if_splits)
  qed
qed

lemma crawl_loop_count:
  assumes "crawl_loop e fuel (c, n) = ((c', n'), st)"
  shows "max_pages c' = max_pages c \<and> n \<le> n' \<and>
         int (length (scraped_data c')) - n' = int (length (scraped_data c)) - n \<and>
         (n \<le> max_pages c \<longrightarrow> n' \<le> max_pages c) \<and>
         (st = Exited \<longrightarrow> url_queue c' = [] \<or> max_pages c \<le> n')"
  using assms
proof (induction fuel arbitrary: c n)
  case 0
  then show ?case by (auto simp: loop_cond_def split: if_splits)
next
  case (Suc fuel)
  show ?case
  proof (cases "loop_cond (c, n)")
    case False
    then show ?thesis using Suc.prems by (auto simp: loop_cond_def)
  next
    case True
    obtain c1 n1 r where it: "crawl_iteration e (c, n) = ((c1, n1), r)"
      by (cases "crawl_iteration e (c, n)") auto
    note step = crawl_iteration_count[OF it]
    show ?thesis
    proof (cases r)
      case (Some err)
      then have "c' = c1" "n' = n1" "st = Raised err" using Suc.prems True it by auto
      then show ?thesis using step True by (auto simp: loop_cond_def)
    next
      case None
      then have "crawl_loop e fuel (c1, n1) = ((c', n'), st)" using Suc.prems True it by simp
      from Suc.IH[OF this] step True show ?thesis by (auto simp: loop_cond_def)
    qed
  qed
qed

text \<open>The counter goes up by one in the iterations that scrape a page, and in no other.\<close>

lemma crawl_iteration_scraped:
  assumes "crawl_iteration e (c, n) = ((c', n'), r)"
  shows "n' = n + (if r = None \<and> iteration_outcome e (c, n) = Scraped then 1 else 0)"
proof (cases "url_queue c")
  case Nil
  then show ?thesis using assms by (auto simp: crawl_iteration_def)
next
  case (Cons q rest)
  let ?c1 = "c\<lparr>url_queue := rest\<rparr>"
  show ?thesis
  proof (cases "normalize_url (ip_ok e) q")
    case (Inl err)
    then show ?thesis using Cons assms by (auto simp: crawl_iteration_def)
  next
    case (Inr u)
    show ?thesis
    proof (cases "u \<in> visited_urls c")
      case True
      then show ?thesis using Cons Inr assms
        by (auto simp: crawl_iteration_def iteration_outcome_def)
    next
      case False
      obtain c2 res where s: "scrape_page_content e ?c1 u = (c2, res)"
        by (cases "scrape_page_content e ?c1 u")
      note facts = scrape_page_content_cases[OF s]
      show ?thesis using Cons Inr False assms s facts
        by (cases res)
           (auto simp: crawl_iteration_def Let_def iteration_outcome_def
                 split: if_splits sum.splits option.splits)
    qed
  qed
qed

lemma crawl_loop_scraped:
  "crawl_loop e fuel (c, n) = ((c', n'), st) \<Longrightarrow>
     n' = n + int (count_list (outcomes e fuel (c, n)) Scraped)"
proof (induction fuel arbitrary: c n)
  case 0
  then show ?case by simp
next
  case (Suc fuel)
  show ?case
  proof (cases "loop_cond (c, n)")
    case False
    then show ?thesis using Suc.prems by simp
  next
    case True
    obtain c1 n1 r where it: "crawl_iteration e (c, n) = ((c1, n1), r)"
      by (cases "crawl_iteration e (c, n)") auto
    note step = crawl_iteration_scraped[OF it]
    show ?thesis
    proof (cases r)
      case (Some err)
      then show ?thesis using Suc.prems True it step by auto
    next
      case None
      then have "crawl_loop e fuel (c1, n1) = ((c', n'), st)" using Suc.prems True it by simp
      from Suc.IH[OF this] step None True it show ?thesis by simp
    qed
  qed
qed

text \<open>
  C5. The loop exits at once when the queue is empty, whatever the count, and at once
  when the count has reached \<^verbatim>\<open>max_pages\<close>. Started with a count of zero and a cap that is
  not negative, the count never exceeds the cap; it is the number of iterations that
  scraped a page, so that iterations that failed, found too little text or skipped a
  stale entry are not counted; it is the number of page records added; and a loop that
  exits with URLs left in the queue has scraped exactly \<^verbatim>\<open>max_pages\<close> pages.
\<close>

theorem driver_loop_bound:
  "(\<forall>c k. url_queue c = [] \<or> max_pages c \<le> k \<longrightarrow> crawl_loop e fuel (c, k) = ((c, k), Exited)) \<and>
   (\<forall>c c' n st. crawl_loop e fuel (c, 0) = ((c', n), st) \<and> 0 \<le> max_pages c \<longrightarrow>
      n \<le> max_pages c \<and>
      n = int (count_list (outcomes e fuel (c, 0)) Scraped) \<and>
      int (length (scraped_data c')) = int (length (scraped_data c)) + n \<and>
      (st = Exited \<and> url_queue c' \<noteq> [] \<longrightarrow> n = max_pages c))"
proof (intro conjI allI impI)
  fix c :: crawler and k :: int
  assume "url_queue c = [] \<or> max_pages c \<le> k"
  then have "\<not> loop_cond (c, k)" by (auto simp: loop_cond_def)
  then show "crawl_loop e fuel (c, k) = ((c, k), Exited)" by (cases fuel) simp_all
next
  fix c c' :: crawler and n :: int and st
  assume h: "crawl_loop e fuel (c, 0) = ((c', n), st) \<and> 0 \<le> max_pages c"
  then have run: "crawl_loop e fuel (c, 0) = ((c', n), st)" by simp
  note facts = crawl_loop_count[OF run]
  show "n \<le> max_pages c" using facts h by simp
  show "n = int (count_list (outcomes e fuel (c, 0)) Scraped)"
    using crawl_loop_scraped[OF run] by simp
  show "int (length (scraped_data c')) = int (length (scraped_data c)) + n" using facts by simp
  assume "st = Exited \<and> url_queue c' \<noteq> []"
  then show "n = max_pages c" using facts h by auto
qed

lemma capped_run:
  "snd (crawl_loop sample_env 5 (new_crawler ''https://www.angelone.in/support'' 2, 0)) = Exited"
  "url_queue (fst (fst (crawl_loop sample_env 5
       (new_crawler ''https://www.angelone.in/support'' 2, 0)))) \<noteq> []"
  by code_simp+

text \<open>
  With a cap of two on the sample site the loop scrapes the seed page, fails on page
  \<open>a\<close>, scrapes page \<open>b\<close> and exits with three URLs still queued.
\<close>

lemma capped_outcomes:
  "outcomes sample_env 5 (new_crawler ''https://www.angelone.in/support'' 2, 0) =
     [Scraped, Failed, Scraped]"
  by code_simp

theorem driver_loop_bound_witness:
  "snd (fst (crawl_loop sample_env 5 (new_crawler ''https://www.angelone.in/support'' 2, 0))) = 2 \<and>
   int (count_list (outcomes sample_env 5 (new_crawler ''https://www.angelone.in/support'' 2, 0))
      Scraped) = 2"
  using driver_loop_bound[of sample_env 5, THEN conjunct2, rule_format,
          of "new_crawler ''https://www.angelone.in/support'' 2"
             "fst (fst (crawl_loop sample_env 5 (new_crawler ''https://www.angelone.in/support'' 2, 0)))"
             "snd (fst (crawl_loop sample_env 5 (new_crawler ''https://www.angelone.in/support'' 2, 0)))"
             "snd (crawl_loop sample_env 5 (new_crawler ''https://www.angelone.in/support'' 2, 0))"]
    capped_run
  by (simp add: new_crawler_def)

subsection \<open>The summary of an interrupted crawl\<close>

lemma crawl_iteration_tally:
  assumes "consistent c" and "finite (failed_urls c)"
    and "crawl_iteration e (c, n) = ((c', n'), r)"
  shows "finite (failed_urls c') \<and>
         (r \<noteq> None \<longrightarrow> scraped_data c' = scraped_data c \<and> failed_urls c' = failed_urls c) \<and>
         (r = None \<longrightarrow>
            length (scraped_data c') =
              length (scraped_data c) + (if iteration_outcome e (c, n) = Scraped then 1 else 0) \<and>
            card (failed_urls c') =
              card (failed_urls c) + (if iteration_outcome e (c, n) = Failed then 1 else 0))"
proof (cases "url_queue c")
  case Nil
  then show ?thesis using assms by (auto simp: crawl_iteration_def)
next
  case (Cons q rest)
  let ?c1 = "c\<lparr>url_queue := rest\<rparr>"
  show ?thesis
  proof (cases "normalize_url (ip_ok e) q")
    case (Inl err)
    then show ?thesis using Cons assms by (auto simp: crawl_iteration_def)
  next
    case (Inr u)
    show ?thesis
    proof (cases "u \<in> visited_urls c")
      case True
      then show ?thesis using Cons Inr assms
        by (auto simp: crawl_iteration_def iteration_outcome_def)
    next
      case False
      then have fresh: "u \<notin> failed_urls c" using assms(1) by (auto simp: consistent_def)
      obtain c2 res where s: "scrape_page_content e ?c1 u = (c2, res)"
        by (cases "scrape_page_content e ?c1 u")
      note facts = scrape_page_content_cases[OF s]
      show ?thesis using Cons Inr False assms s facts fresh
        by (cases res)
           (auto simp: crawl_iteration_def Let_def iteration_outcome_def
                 split: if_splits sum.splits option.splits)
    qed
  qed
qed

lemma crawl_loop_tally:
  assumes "consistent c" and "finite (failed_urls c)"
  shows "length (scraped_data (fst (fst (crawl_loop e k (c, n))))) =
           length (scraped_data c) + count_list (outcomes e k (c, n)) Scraped \<and>
         card (failed_urls (fst (fst (crawl_loop e k (c, n))))) =
           card (failed_urls c) + count_list (outcomes e k (c, n)) Failed"
  using assms
proof (induction k arbitrary: c n)
  case 0
  then show ?case by simp
next
  case (Suc k)
  show ?case
  proof (cases "loop_cond (c, n)")
    case False
    then show ?thesis by simp
  next
    case True
    obtain c1 n1 r where it: "crawl_iteration e (c, n) = ((c1, n1), r)"
      by (cases "crawl_iteration e (c, n)") auto
    note step = crawl_iteration_tally[OF Suc.prems it]
    have c1: "consistent c1" using crawl_iteration_consistent[OF Suc.prems(1), of e n] it by simp
    show ?thesis
    proof (cases r)
      case (Some err)
      then show ?thesis using True it step by simp
    next
      case None
      from Suc.IH[OF c1, of n1] step None True it show ?thesis by simp
    qed
  qed
qed

text \<open>
  C4 (as amended). Cut the loop after any number of iterations: the summary that
  \<^verbatim>\<open>save_data\<close> builds from the crawler as it then stands counts as pages scraped the
  iterations that scraped a page and as failed URLs the iterations that failed, 3 and 1
  after three successes and one failure. This is what the crawler object holds; whether
  the program writes it is another matter, see below.
\<close>

theorem interrupted_summary:
  assumes "scraped_data c = []" and "failed_urls c = {}"
  shows "total_pages_scraped (info (save_data e (fst (fst (crawl_loop e k (c, 0)))))) =
           int (count_list (outcomes e k (c, 0)) Scraped) \<and>
         failed_urls_count (info (save_data e (fst (fst (crawl_loop e k (c, 0)))))) =
           int (count_list (outcomes e k (c, 0)) Failed)"
proof -
  have "consistent c" "finite (failed_urls c)" using assms by (simp_all add: consistent_def)
  from crawl_loop_tally[OF this, of e k 0] assms show ?thesis by (simp add: save_data_def)
qed

lemma sample_loop_4:
  "outcomes sample_env 4 (new_crawler ''https://www.angelone.in/support'' 1000, 0) =
     [Scraped, Failed, Scraped, Scraped]"
  "snd (crawl_loop sample_env 4 (new_crawler ''https://www.angelone.in/support'' 1000, 0)) =
     Interrupted"
  by code_simp+

theorem interrupted_summary_witness:
  "snd (crawl_loop sample_env 4 (new_crawler ''https://www.angelone.in/support'' 1000, 0)) =
     Interrupted \<and>
   total_pages_scraped (info (save_data sample_env (fst (fst (crawl_loop sample_env 4
     (new_crawler ''https://www.angelone.in/support'' 1000, 0)))))) = 3 \<and>
   failed_urls_count (info (save_data sample_env (fst (fst (crawl_loop sample_env 4
     (new_crawler ''https://www.angelone.in/support'' 1000, 0)))))) = 1"
  using interrupted_summary[of "new_crawler ''https://www.angelone.in/support'' 1000" sample_env 4]
    sample_loop_4
  by (simp add: new_crawler_def)

text \<open>
  \<^verbatim>\<open>main\<close> interrupted after four iterations on the sample site, three successes and one
  failure: no summary is written, the partial results are dropped.
\<close>

lemma sample_run_4: "snd (sample_run 4) = Interrupted"
  by code_simp

theorem interrupted_main_counterexample:
  "snd (sample_run 4) = Interrupted \<and> main sample_env 4 = None"
proof -
  obtain c where "sample_run 4 = (c, Interrupted)"
    using sample_run_4 by (cases "sample_run 4") simp
  then show ?thesis by (simp add: main_def sample_run_def)
qed

subsection \<open>Normalising twice\<close>





















text \<open>
  Each of the other conditions is needed as well: without a scheme, with parameters
  laid bare by the dropped slash, and with a bracket that only the second parse reads
  as part of a host, the normal form is not a fixed point.
\<close>

lemma normalize_url_twice_examples:
  "normalize_url ip ''foo'' = Inr (Some ''://foo'')"
  "normalize_url ip ''://foo'' = Inr (Some ''://://foo'')"
  "normalize_url ip ''http://a/b;c/'' = Inr (Some ''http://a/b;c'')"
  "normalize_url ip ''http://a/b;c'' = Inr (Some ''http://a/b'')"
  "normalize_url ip ''http:['' = Inr (Some ''http://['')"
  "normalize_url ip ''http://['' = Inl ValueError"
  by (simp_all add: url_eval)

end
